theory Spec2Isabelle
  imports Complex_Main "HOL-Library.Signed_Division"
begin

section \<open>Instants of Go's \<open>time\<close> package\<close>

text \<open>
  \<open>freetime.go\<close> works on \<open>time.Time\<close> values. A \<open>time.Time\<close> is an instant together with
  the location it is displayed in. The instant is kept as the number of nanoseconds since
  the Unix epoch. A location is the offset east of UTC, in seconds, that holds before its
  first transition, and the list of its transitions in increasing order of time: each is
  the Unix second at which it happens and the offset that holds from then on (a rule that
  continues the transitions after the last one is taken as unfolded into the list).
  \<open>After\<close>, \<open>Before\<close> and \<open>Equal\<close> compare the instants only, as the package documents.
\<close>

record Location =
  first_offset :: int
  tx :: "(int \<times> int) list"

record Time =
  unix_ns :: int
  loc :: Location

abbreviation Second :: int where "Second \<equiv> 1000000000"
abbreviation Minute :: int where "Minute \<equiv> 60 * Second"
abbreviation Hour :: int where "Hour \<equiv> 60 * Minute"
abbreviation Day :: int where "Day \<equiv> 24 * Hour"

definition Time_After :: "Time \<Rightarrow> Time \<Rightarrow> bool" where
  "Time_After t u = (unix_ns u < unix_ns t)"

definition Time_Before :: "Time \<Rightarrow> Time \<Rightarrow> bool" where
  "Time_Before t u = (unix_ns t < unix_ns u)"

definition Time_Equal :: "Time \<Rightarrow> Time \<Rightarrow> bool" where
  "Time_Equal t u = (unix_ns t = unix_ns u)"

text \<open>
  \<open>t.Sub(u)\<close> is a \<open>Duration\<close>, a signed 64-bit count of nanoseconds: a difference out of
  range is replaced by the largest or the smallest duration.
\<close>

abbreviation maxDuration :: int where "maxDuration \<equiv> 9223372036854775807"
abbreviation minDuration :: int where "minDuration \<equiv> - 9223372036854775808"

definition Time_Sub :: "Time \<Rightarrow> Time \<Rightarrow> int" where
  "Time_Sub t u =
     (let d = unix_ns t - unix_ns u in
      if d < minDuration then minDuration
      else if maxDuration < d then maxDuration
      else d)"

text \<open>
  \<open>d.Minutes()\<close> is computed in \<open>float64\<close>:
  \<^verbatim>\<open>min := d / Minute; nsec := d % Minute; return float64(min) + float64(nsec)/(60*1e9)\<close>
  with Go's truncating division and remainder. The rounding of \<open>float64\<close> is the parameter
  \<open>fl\<close>: every conversion and every arithmetic operation rounds its exact result.
\<close>

definition Minutes :: "(real \<Rightarrow> real) \<Rightarrow> int \<Rightarrow> real" where
  "Minutes fl d =
     (let min = d sdiv Minute;
          nsec = d smod Minute
      in fl (fl (real_of_int min) + fl (fl (real_of_int nsec) / 60000000000)))"

text \<open>
  What the proofs use of round-to-nearest on \<open>float64\<close>: it is monotone, it leaves the
  integers up to \<open>2 ^ 53\<close> as they are, and in the normal range its relative error is at
  most \<open>2 ^ 53\<close>-th of the value.
\<close>

definition float64_rounding :: "(real \<Rightarrow> real) \<Rightarrow> bool" where
  "float64_rounding fl \<longleftrightarrow>
     (\<forall>x y. x \<le> y \<longrightarrow> fl x \<le> fl y) \<and>
     (\<forall>k::int. \<bar>k\<bar> \<le> 2 ^ 53 \<longrightarrow> fl (real_of_int k) = real_of_int k) \<and>
     (\<forall>x. 1 \<le> \<bar>x\<bar> * 2 ^ 1022 \<and> \<bar>x\<bar> \<le> 2 ^ 1023 \<longrightarrow> \<bar>fl x - x\<bar> * 2 ^ 53 \<le> \<bar>x\<bar>)"

section \<open>Ranges\<close>

text \<open>The struct \<open>Range\<close> with its accessors \<open>Start\<close>, \<open>End\<close> and \<open>Duration\<close>.\<close>

record Range =
  r_start :: Time
  r_end :: Time

definition Start :: "Range \<Rightarrow> Time" where
  "Start r = r_start r"

definition End :: "Range \<Rightarrow> Time" where
  "End r = r_end r"

definition Duration :: "Range \<Rightarrow> int" where
  "Duration r = Time_Sub (r_end r) (r_start r)"

text \<open>
  \<open>r.split(start, end)\<close>: the two guards return the receiver alone; otherwise \<open>ret\<close>
  starts empty and receives the piece before the splitter and the piece after it.
\<close>

definition split :: "Range \<Rightarrow> Time \<Rightarrow> Time \<Rightarrow> Range list" where
  "split r s e =
     (let ret = [] in
      if Time_After (Start r) e \<or> Time_Equal (Start r) e then [r]
      else if Time_Before (End r) s \<or> Time_Equal (End r) s then [r]
      else
        let ret = (if Time_After s (Start r) \<and> Time_Before s (End r)
                   then ret @ [\<lparr>r_start = Start r, r_end = s\<rparr>] else ret);
            ret = (if Time_After e (Start r) \<and> Time_Before e (End r)
                   then ret @ [\<lparr>r_start = e, r_end = End r\<rparr>] else ret)
        in ret)"

text \<open>\<open>r.After(t)\<close>: the range clipped so that it does not start before \<open>t\<close>.\<close>

definition After :: "Range \<Rightarrow> Time \<Rightarrow> Range" where
  "After r t =
     (if Time_After t (End r) then \<lparr>r_start = End r, r_end = End r\<rparr>
      else if Time_Before t (Start r) then r
      else \<lparr>r_start = t, r_end = End r\<rparr>)"

text \<open>
  The vocabulary of the specification. A splitter \<open>[s, e)\<close> overlaps \<open>r\<close> when neither guard
  of \<open>split\<close> applies: touching endpoints do not overlap. Two ranges overlap when one
  overlaps the other taken as a splitter. A range is contained in another when it starts
  no earlier and ends no later. A range is well formed when its end is not before its start.
\<close>

definition overlaps :: "Range \<Rightarrow> Time \<Rightarrow> Time \<Rightarrow> bool" where
  "overlaps r s e \<longleftrightarrow> Time_Before (Start r) e \<and> Time_Before s (End r)"

definition ranges_overlap :: "Range \<Rightarrow> Range \<Rightarrow> bool" where
  "ranges_overlap p q = overlaps p (Start q) (End q)"

fun pairwise_disjoint :: "Range list \<Rightarrow> bool" where
  "pairwise_disjoint [] = True"
| "pairwise_disjoint (p # ps) = ((\<forall>q \<in> set ps. \<not> ranges_overlap p q) \<and> pairwise_disjoint ps)"

definition contained_in :: "Range \<Rightarrow> Range \<Rightarrow> bool" where
  "contained_in p r \<longleftrightarrow> \<not> Time_Before (Start p) (Start r) \<and> \<not> Time_After (End p) (End r)"

definition range_ok :: "Range \<Rightarrow> bool" where
  "range_ok r \<longleftrightarrow> \<not> Time_Before (End r) (Start r)"

text \<open>An instant displayed in UTC, for the examples.\<close>

definition UTC :: Location where
  "UTC = \<lparr>first_offset = 0, tx = []\<rparr>"

definition instant :: "int \<Rightarrow> Time" where
  "instant n = \<lparr>unix_ns = n, loc = UTC\<rparr>"

section \<open>The next work day\<close>

text \<open>
  The calendar of Go's \<open>time\<close> package, as far as \<open>nextWorkDay\<close> uses it.

  \<open>loc.lookup(sec)\<close> gives the offset in force at the Unix second \<open>sec\<close> with the bounds of
  the period in which it is in force: the period starts at the last transition at or before
  \<open>sec\<close> and ends at the next one. The package finds it by binary search in the ordered
  transitions; the walk below finds the same one. Before the first transition the start is
  \<open>alpha\<close>, after the last one the end is \<open>omega\<close>.
\<close>

abbreviation alpha :: int where "alpha \<equiv> - 9223372036854775808"
abbreviation omega :: int where "omega \<equiv> 9223372036854775807"

fun lookup_tx :: "(int \<times> int) list \<Rightarrow> int \<Rightarrow> int \<Rightarrow> int \<Rightarrow> int \<times> int \<times> int" where
  "lookup_tx [] offset start sec = (offset, start, omega)"
| "lookup_tx ((when, offset') # rest) offset start sec =
     (if sec < when then (offset, start, when) else lookup_tx rest offset' when sec)"

definition lookup :: "Location \<Rightarrow> int \<Rightarrow> int \<times> int \<times> int" where
  "lookup l sec = lookup_tx (tx l) (first_offset l) alpha sec"

definition offset_at :: "Location \<Rightarrow> int \<Rightarrow> int" where
  "offset_at l sec = fst (lookup l sec)"

text \<open>
  The seconds that the clock of the location shows for \<open>t\<close>, counted from 1 January 1970
  00:00 on that clock. The date (\<open>Year\<close>, \<open>Month\<close>, \<open>Day\<close>) of \<open>t\<close> is kept as the number of its
  day, counted from 1 January 1970, which was a Thursday; \<open>Clock\<close> is the hour, the minute
  and the second within the day.
\<close>

datatype weekday = Sunday | Monday | Tuesday | Wednesday | Thursday | Friday | Saturday

definition Location :: "Time \<Rightarrow> Location" where
  "Location t = loc t"

definition wall_sec :: "Time \<Rightarrow> int" where
  "wall_sec t = (let sec = unix_ns t div Second in sec + offset_at (Location t) sec)"

definition YearMonthDay :: "Time \<Rightarrow> int" where
  "YearMonthDay t = wall_sec t div 86400"

definition Clock :: "Time \<Rightarrow> int \<times> int \<times> int" where
  "Clock t = (let c = wall_sec t mod 86400 in (c div 3600, c mod 3600 div 60, c mod 60))"

definition Nanosecond :: "Time \<Rightarrow> int" where
  "Nanosecond t = unix_ns t mod Second"

text \<open>
  \<open>time.Date(year, month, day, hour, min, sec, nsec, loc)\<close>, the date given by its day
  number. The values out of range are normalised by counting seconds. The offset is first
  looked up at the clock reading taken as a Unix time; when the instant so obtained is not
  in the period of that offset, the offset is looked up at that instant.
\<close>

definition Date :: "int \<Rightarrow> int \<Rightarrow> int \<Rightarrow> int \<Rightarrow> int \<Rightarrow> Location \<Rightarrow> Time" where
  "Date ymd hour minute sec nsec l =
     (let unix = ymd * 86400 + hour * 3600 + minute * 60 + sec + nsec div Second;
          nsec = nsec mod Second;
          (offset, start, end) = lookup l unix;
          unix = (if offset \<noteq> 0
                  then (let utc = unix - offset;
                            offset = (if utc < start \<or> utc \<ge> end then offset_at l utc
                                      else offset)
                        in unix - offset)
                  else unix)
      in \<lparr>unix_ns = unix * Second + nsec, loc = l\<rparr>)"

text \<open>
  \<open>t.AddDate(0, 0, days)\<close>: the date of \<open>t\<close> with \<open>days\<close> added to the day, at the clock
  reading of \<open>t\<close>, in the location of \<open>t\<close>.
\<close>

definition AddDate :: "Time \<Rightarrow> int \<Rightarrow> Time" where
  "AddDate t days =
     (case Clock t of (hour, minute, sec) \<Rightarrow>
        Date (YearMonthDay t + days) hour minute sec (Nanosecond t) (Location t))"

definition weekday_of :: "int \<Rightarrow> weekday" where
  "weekday_of ymd =
     (let k = (ymd + 4) mod 7 in
      if k = 0 then Sunday else if k = 1 then Monday else if k = 2 then Tuesday
      else if k = 3 then Wednesday else if k = 4 then Thursday else if k = 5 then Friday
      else Saturday)"

definition Weekday :: "Time \<Rightarrow> weekday" where
  "Weekday t = weekday_of (YearMonthDay t)"

text \<open>\<open>nextWorkDay(now)\<close>: the work day after or including \<open>now\<close>, from 10:00 to 18:00.\<close>

definition nextWorkDay :: "Time \<Rightarrow> Range" where
  "nextWorkDay now =
     (let nowAtSix = Date (YearMonthDay now) 18 0 0 0 (Location now);
          nextStart =
            (if Time_After now nowAtSix \<or> Time_Equal now nowAtSix
             then (let nextStart = AddDate now 1
                   in Date (YearMonthDay nextStart) 10 0 0 0 (Location nextStart))
             else Date (YearMonthDay now) 10 0 0 0 (Location now));
          nextStart =
            (if Weekday nextStart = Saturday then AddDate nextStart 2
             else if Weekday nextStart = Sunday then AddDate nextStart 1
             else nextStart);
          end = Date (YearMonthDay nextStart) 18 0 0 0 (Location nextStart)
      in \<lparr>r_start = nextStart, r_end = end\<rparr>)"

text \<open>
  Two conditions on a location. Its offsets are within \<open>b\<close> seconds when no two of them
  differ by more than \<open>b\<close>. It is steady with the offset \<open>off\<close> over the clock readings from
  \<open>a\<close> to \<open>b\<close> when one period with that offset holds these readings, both taken as Unix
  times and taken on the clock of the location.
\<close>

definition offsets :: "Location \<Rightarrow> int list" where
  "offsets l = first_offset l # map snd (tx l)"

definition offsets_within :: "Location \<Rightarrow> int \<Rightarrow> bool" where
  "offsets_within l b \<longleftrightarrow> (\<forall>p \<in> set (offsets l). \<forall>q \<in> set (offsets l). \<bar>p - q\<bar> \<le> b)"

definition steady :: "Location \<Rightarrow> int \<Rightarrow> int \<Rightarrow> int \<Rightarrow> bool" where
  "steady l off a b \<longleftrightarrow>
     (let lo = min a (a - off); hi = max b (b - off)
      in case lookup l lo of (offset, start, end) \<Rightarrow> offset = off \<and> start \<le> lo \<and> hi < end)"

text \<open>
  For the examples: Central Time in 2017, six hours behind UTC until 12 March 08:00 UTC,
  five hours behind until 5 November 07:00 UTC, six hours behind afterwards.
\<close>

definition Chicago :: Location where
  "Chicago = \<lparr>first_offset = - 21600, tx = [(1489305600, - 18000), (1509865200, - 21600)]\<rparr>"

section \<open>The reduction step and the pruning of short ranges\<close>

text \<open>
  In \<open>main\<close>, one busy event with a start time replaces the list of free ranges: every
  range is split by the event, and the pieces are appended one by one to \<open>newRanges\<close>.
\<close>

definition subtract_event :: "Range list \<Rightarrow> Time \<Rightarrow> Time \<Rightarrow> Range list" where
  "subtract_event freeRanges eventStart eventEnd =
     foldl (\<lambda>newRanges r.
              foldl (\<lambda>newRanges sp. newRanges @ [sp]) newRanges (split r eventStart eventEnd))
           [] freeRanges"

text \<open>
  Then \<open>main\<close> prunes the short ranges: \<open>longRanges\<close> receives the ranges with
  \<open>r.Duration().Minutes() >= 30\<close>.
\<close>

definition prune :: "(real \<Rightarrow> real) \<Rightarrow> Range list \<Rightarrow> Range list" where
  "prune fl freeRanges =
     foldl (\<lambda>longRanges r. if 30 \<le> Minutes fl (Duration r) then longRanges @ [r] else longRanges)
           [] freeRanges"

section \<open>Properties of \<open>split\<close>\<close>

lemmas time_cmp = Time_After_def Time_Before_def Time_Equal_def

declare Start_def [simp] End_def [simp]

text \<open>
  C2. When the splitter starts at or after the end of \<open>r\<close>, or ends at or before the start
  of \<open>r\<close>, \<open>split\<close> returns the one-element list holding \<open>r\<close> itself.
\<close>

theorem split_disjoint_unchanged:
  "unix_ns s \<ge> unix_ns (End r) \<or> unix_ns e \<le> unix_ns (Start r) \<Longrightarrow> split r s e = [r]"
  by (auto simp add: split_def time_cmp)

theorem split_disjoint_unchanged_witness:
  "(unix_ns (instant 20) \<ge> unix_ns (End \<lparr>r_start = instant 10, r_end = instant 20\<rparr>)
    \<or> unix_ns (instant 30) \<le> unix_ns (Start \<lparr>r_start = instant 10, r_end = instant 20\<rparr>))
   \<and> split \<lparr>r_start = instant 10, r_end = instant 20\<rparr> (instant 20) (instant 30)
       = [\<lparr>r_start = instant 10, r_end = instant 20\<rparr>]"
  using split_disjoint_unchanged
    [of "\<lparr>r_start = instant 10, r_end = instant 20\<rparr>" "instant 20" "instant 30"]
  by (simp add: instant_def)

text \<open>
  C1. When the splitter overlaps \<open>r\<close>, \<open>split\<close> returns the piece from the start of \<open>r\<close> to \<open>s\<close>
  exactly when \<open>s\<close> is strictly after the start and strictly before the end of \<open>r\<close>, then the
  piece from \<open>e\<close> to the end of \<open>r\<close> exactly when \<open>e\<close> is strictly after the start and strictly
  before the end of \<open>r\<close>: the left piece comes first.
\<close>

theorem split_overlapping_pieces:
  "overlaps r s e \<Longrightarrow>
   split r s e =
     (if unix_ns (Start r) < unix_ns s \<and> unix_ns s < unix_ns (End r)
      then [\<lparr>r_start = Start r, r_end = s\<rparr>] else [])
     @ (if unix_ns (Start r) < unix_ns e \<and> unix_ns e < unix_ns (End r)
        then [\<lparr>r_start = e, r_end = End r\<rparr>] else [])"
  by (auto simp add: split_def overlaps_def time_cmp)

theorem split_overlapping_pieces_witness:
  "overlaps \<lparr>r_start = instant 10, r_end = instant 20\<rparr> (instant 12) (instant 15)
   \<and> split \<lparr>r_start = instant 10, r_end = instant 20\<rparr> (instant 12) (instant 15)
       = [\<lparr>r_start = instant 10, r_end = instant 12\<rparr>,
          \<lparr>r_start = instant 15, r_end = instant 20\<rparr>]"
  using split_overlapping_pieces
    [of "\<lparr>r_start = instant 10, r_end = instant 20\<rparr>" "instant 12" "instant 15"]
  by (simp add: instant_def overlaps_def time_cmp)

text \<open>
  C3, as the code has it. A splitter that starts at or before the start of \<open>r\<close> and ends at or
  after the end of \<open>r\<close> consumes \<open>r\<close> when it overlaps \<open>r\<close>, which it does whenever \<open>r\<close> has a
  positive length; a zero-length range that only touches the splitter is returned
  unchanged by the guards.
\<close>

theorem split_covered:
  "unix_ns s \<le> unix_ns (Start r) \<Longrightarrow> unix_ns e \<ge> unix_ns (End r) \<Longrightarrow>
   split r s e = (if overlaps r s e then [] else [r])"
  by (auto simp add: split_def overlaps_def time_cmp)

theorem split_covered_witness:
  "unix_ns (instant 5) \<le> unix_ns (Start \<lparr>r_start = instant 10, r_end = instant 20\<rparr>)
   \<and> unix_ns (instant 20) \<ge> unix_ns (End \<lparr>r_start = instant 10, r_end = instant 20\<rparr>)
   \<and> overlaps \<lparr>r_start = instant 10, r_end = instant 20\<rparr> (instant 5) (instant 20)
   \<and> split \<lparr>r_start = instant 10, r_end = instant 20\<rparr> (instant 5) (instant 20) = []"
  using split_covered
    [of "instant 5" "\<lparr>r_start = instant 10, r_end = instant 20\<rparr>" "instant 20"]
  by (simp add: instant_def overlaps_def time_cmp)

text \<open>
  C3 as it is stated fails on a zero-length range: the splitter from 0 to 5 covers the range
  from 5 to 5, and \<open>split\<close> returns the range, not the empty list.
\<close>

theorem split_covered_zero_length_counterexample:
  "unix_ns (instant 0) \<le> unix_ns (Start \<lparr>r_start = instant 5, r_end = instant 5\<rparr>)
   \<and> unix_ns (instant 5) \<ge> unix_ns (End \<lparr>r_start = instant 5, r_end = instant 5\<rparr>)
   \<and> split \<lparr>r_start = instant 5, r_end = instant 5\<rparr> (instant 0) (instant 5)
       = [\<lparr>r_start = instant 5, r_end = instant 5\<rparr>]
   \<and> split \<lparr>r_start = instant 5, r_end = instant 5\<rparr> (instant 0) (instant 5) \<noteq> []"
  by (simp add: instant_def split_def time_cmp)

text \<open>
  C4. For a splitter whose end is not before its start, the ranges that \<open>split\<close> returns are
  pairwise non-overlapping, and each of them is contained in \<open>r\<close>.
\<close>

theorem split_disjoint_contained:
  "unix_ns s \<le> unix_ns e \<Longrightarrow>
   pairwise_disjoint (split r s e) \<and> (\<forall>p \<in> set (split r s e). contained_in p r)"
  by (auto simp add: split_def overlaps_def ranges_overlap_def contained_in_def time_cmp)

theorem split_disjoint_contained_witness:
  "unix_ns (instant 12) \<le> unix_ns (instant 15)
   \<and> split \<lparr>r_start = instant 10, r_end = instant 20\<rparr> (instant 12) (instant 15)
       = [\<lparr>r_start = instant 10, r_end = instant 12\<rparr>,
          \<lparr>r_start = instant 15, r_end = instant 20\<rparr>]
   \<and> \<not> ranges_overlap \<lparr>r_start = instant 10, r_end = instant 12\<rparr>
                        \<lparr>r_start = instant 15, r_end = instant 20\<rparr>
   \<and> contained_in \<lparr>r_start = instant 10, r_end = instant 12\<rparr>
                   \<lparr>r_start = instant 10, r_end = instant 20\<rparr>
   \<and> contained_in \<lparr>r_start = instant 15, r_end = instant 20\<rparr>
                   \<lparr>r_start = instant 10, r_end = instant 20\<rparr>"
proof -
  let ?r = "\<lparr>r_start = instant 10, r_end = instant 20\<rparr>"
  have le: "unix_ns (instant 12) \<le> unix_ns (instant 15)"
    by (simp add: instant_def)
  have pieces: "split ?r (instant 12) (instant 15)
       = [\<lparr>r_start = instant 10, r_end = instant 12\<rparr>,
          \<lparr>r_start = instant 15, r_end = instant 20\<rparr>]"
    by (simp add: instant_def split_def time_cmp)
  from split_disjoint_contained [OF le, of ?r] show ?thesis
    unfolding pieces using le by simp
qed

text \<open>
  The hypothesis of C4 is needed: with a splitter that ends before it starts, both pieces
  are emitted and they overlap.
\<close>

lemma split_inverted_splitter:
  "split \<lparr>r_start = instant 0, r_end = instant 10\<rparr> (instant 8) (instant 2)
     = [\<lparr>r_start = instant 0, r_end = instant 8\<rparr>, \<lparr>r_start = instant 2, r_end = instant 10\<rparr>]
   \<and> ranges_overlap \<lparr>r_start = instant 0, r_end = instant 8\<rparr>
                     \<lparr>r_start = instant 2, r_end = instant 10\<rparr>"
  by (simp add: instant_def split_def ranges_overlap_def overlaps_def time_cmp)

section \<open>Properties of \<open>After\<close>\<close>

text \<open>
  C5. For a well-formed range \<open>r\<close>, \<open>After\<close> returns the zero-length range at the end of \<open>r\<close>
  when \<open>t\<close> is after that end, \<open>r\<close> itself when \<open>t\<close> is before the start of \<open>r\<close>, and the range
  from \<open>t\<close> to the end of \<open>r\<close> otherwise.
\<close>

theorem After_cases:
  "range_ok r \<Longrightarrow>
   (Time_After t (End r) \<longrightarrow> After r t = \<lparr>r_start = End r, r_end = End r\<rparr>)
   \<and> (Time_Before t (Start r) \<longrightarrow> After r t = r)
   \<and> (\<not> Time_After t (End r) \<and> \<not> Time_Before t (Start r)
        \<longrightarrow> After r t = \<lparr>r_start = t, r_end = End r\<rparr>)"
  by (auto simp add: After_def range_ok_def time_cmp)

theorem After_cases_witness:
  "range_ok \<lparr>r_start = instant 10, r_end = instant 20\<rparr>
   \<and> After \<lparr>r_start = instant 10, r_end = instant 20\<rparr> (instant 25)
       = \<lparr>r_start = instant 20, r_end = instant 20\<rparr>
   \<and> After \<lparr>r_start = instant 10, r_end = instant 20\<rparr> (instant 5)
       = \<lparr>r_start = instant 10, r_end = instant 20\<rparr>
   \<and> After \<lparr>r_start = instant 10, r_end = instant 20\<rparr> (instant 15)
       = \<lparr>r_start = instant 15, r_end = instant 20\<rparr>"
proof -
  let ?r = "\<lparr>r_start = instant 10, r_end = instant 20\<rparr>"
  have ok: "range_ok ?r"
    by (simp add: range_ok_def instant_def time_cmp)
  from After_cases [OF ok, of "instant 25"] After_cases [OF ok, of "instant 5"]
    After_cases [OF ok, of "instant 15"] ok
  show ?thesis by (simp add: instant_def time_cmp)
qed

section \<open>Properties of the reduction step\<close>

lemma foldl_snoc: "foldl (\<lambda>acc x. acc @ [x]) acc xs = acc @ xs"
  by (induction xs arbitrary: acc) simp_all

lemma subtract_event_concat: "subtract_event rs s e = concat (map (\<lambda>r. split r s e) rs)"
proof -
  have "foldl (\<lambda>acc r. foldl (\<lambda>acc sp. acc @ [sp]) acc (split r s e)) acc rs
        = acc @ concat (map (\<lambda>r. split r s e) rs)" for acc
    by (induction rs arbitrary: acc) (simp_all add: foldl_snoc)
  then show ?thesis by (simp add: subtract_event_def)
qed

text \<open>
  C9. When the busy event overlaps none of the free ranges, the reduction step returns the
  list of free ranges as it was.
\<close>

theorem subtract_event_disjoint:
  "\<forall>r \<in> set rs. \<not> overlaps r s e \<Longrightarrow> subtract_event rs s e = rs"
proof -
  assume "\<forall>r \<in> set rs. \<not> overlaps r s e"
  then have "concat (map (\<lambda>r. split r s e) rs) = rs"
    by (induction rs) (auto simp add: split_def overlaps_def time_cmp)
  then show ?thesis by (simp add: subtract_event_concat)
qed

theorem subtract_event_disjoint_witness:
  "\<not> overlaps \<lparr>r_start = instant 10, r_end = instant 20\<rparr> (instant 20) (instant 30)
   \<and> \<not> overlaps \<lparr>r_start = instant 40, r_end = instant 40\<rparr> (instant 20) (instant 30)
   \<and> \<not> overlaps \<lparr>r_start = instant 30, r_end = instant 40\<rparr> (instant 20) (instant 30)
   \<and> subtract_event [\<lparr>r_start = instant 10, r_end = instant 20\<rparr>, \<lparr>r_start = instant 40, r_end = instant 40\<rparr>,
                      \<lparr>r_start = instant 30, r_end = instant 40\<rparr>] (instant 20) (instant 30)
       = [\<lparr>r_start = instant 10, r_end = instant 20\<rparr>, \<lparr>r_start = instant 40, r_end = instant 40\<rparr>,
          \<lparr>r_start = instant 30, r_end = instant 40\<rparr>]"
proof -
  let ?rs = "[\<lparr>r_start = instant 10, r_end = instant 20\<rparr>, \<lparr>r_start = instant 40, r_end = instant 40\<rparr>,
              \<lparr>r_start = instant 30, r_end = instant 40\<rparr>]"
  have none: "\<forall>r \<in> set ?rs. \<not> overlaps r (instant 20) (instant 30)"
    by (simp add: instant_def overlaps_def time_cmp)
  from subtract_event_disjoint [OF none] none show ?thesis by simp
qed

section \<open>Properties of \<open>nextWorkDay\<close>\<close>

lemma lookup_tx_same:
  "lookup_tx txs off st lo = (p, s, e) \<Longrightarrow> lo \<le> x \<Longrightarrow> x < e \<Longrightarrow> lookup_tx txs off st x = (p, s, e)"
proof (induction txs arbitrary: off st)
  case Nil
  then show ?case by simp
next
  case (Cons tr txs)
  obtain w off' where tr: "tr = (w, off')" by (cases tr)
  show ?case
  proof (cases "lo < w")
    case True
    with Cons.prems tr show ?thesis by simp
  next
    case False
    with Cons.prems tr have "lookup_tx txs off' w lo = (p, s, e)" by simp
    from Cons.IH [OF this Cons.prems(2,3)] False Cons.prems(2) tr show ?thesis by simp
  qed
qed


lemma steady_lookup:
  assumes "steady l off a b" and "min a (a - off) \<le> x" and "x \<le> max b (b - off)"
  shows "\<exists>s e. lookup l x = (off, s, e) \<and> s \<le> min a (a - off) \<and> max b (b - off) < e"
proof -
  define lo where "lo = min a (a - off)"
  define hi where "hi = max b (b - off)"
  obtain p s e where lo: "lookup l lo = (p, s, e)"
    by (cases "lookup l lo") auto
  with assms(1) have *: "p = off" "s \<le> lo" "hi < e"
    by (simp_all add: steady_def Let_def lo_def hi_def)
  from lo have "lookup_tx (tx l) (first_offset l) alpha lo = (p, s, e)"
    by (simp add: lookup_def)
  moreover have "lo \<le> x" "x < e"
    using assms(2,3) * unfolding lo_def hi_def by linarith+
  ultimately have "lookup_tx (tx l) (first_offset l) alpha x = (p, s, e)"
    by (rule lookup_tx_same)
  with * show ?thesis by (simp add: lookup_def lo_def hi_def)
qed


lemma Date_steady:
  assumes st: "steady l off a b"
    and g: "g = ymd * 86400 + hour * 3600 + minute * 60 + sec" "a \<le> g" "g \<le> b"
  shows "Date ymd hour minute sec 0 l = \<lparr>unix_ns = (g - off) * Second, loc = l\<rparr>"
proof -
  have "min a (a - off) \<le> g" "g \<le> max b (b - off)"
    using g(2,3) by linarith+
  from steady_lookup [OF st this] obtain s e
    where look: "lookup l g = (off, s, e)" and "s \<le> min a (a - off)" "max b (b - off) < e"
    by auto
  then have "\<not> (g - off < s \<or> g - off \<ge> e)"
    using g(2,3) by linarith
  with look show ?thesis
    unfolding Date_def g(1) [symmetric] by (simp add: Let_def)
qed

lemma wall_sec_steady:
  assumes st: "steady l off a b" and g: "a \<le> g" "g \<le> b"
  shows "wall_sec \<lparr>unix_ns = (g - off) * Second, loc = l\<rparr> = g"
proof -
  have "min a (a - off) \<le> g - off" "g - off \<le> max b (b - off)"
    using g by linarith+
  from steady_lookup [OF st this] have "offset_at l (g - off) = off"
    by (auto simp add: offset_at_def)
  then show ?thesis
    by (simp add: wall_sec_def Location_def Let_def)
qed

lemma YearMonthDay_wall:
  assumes "wall_sec t = ymd * 86400 + c" "0 \<le> c" "c < 86400"
  shows "YearMonthDay t = ymd"
proof -
  have "(ymd * 86400 + c) div 86400 = ymd"
    using assms(2,3) by simp
  with assms(1) show ?thesis by (simp add: YearMonthDay_def)
qed

lemma Clock_wall:
  assumes "wall_sec t = ymd * 86400 + c" "0 \<le> c" "c < 86400"
  shows "Clock t = (c div 3600, c mod 3600 div 60, c mod 60)"
proof -
  have "(ymd * 86400 + c) mod 86400 = c"
    using assms(2,3) by simp
  with assms(1) show ?thesis by (simp add: Clock_def Let_def)
qed


lemma Date_reading:
  assumes st: "steady l off a b"
    and c: "c = hour * 3600 + minute * 60 + sec" "0 \<le> c" "c < 86400"
    and g: "a \<le> ymd * 86400 + c" "ymd * 86400 + c \<le> b"
  shows "Date ymd hour minute sec 0 l = \<lparr>unix_ns = (ymd * 86400 + c - off) * Second, loc = l\<rparr>"
    and "YearMonthDay (Date ymd hour minute sec 0 l) = ymd"
    and "Clock (Date ymd hour minute sec 0 l) = (c div 3600, c mod 3600 div 60, c mod 60)"
    and "Nanosecond (Date ymd hour minute sec 0 l) = 0"
    and "Location (Date ymd hour minute sec 0 l) = l"
proof -
  have eq: "ymd * 86400 + c = ymd * 86400 + hour * 3600 + minute * 60 + sec"
    using c(1) by simp
  show date: "Date ymd hour minute sec 0 l = \<lparr>unix_ns = (ymd * 86400 + c - off) * Second, loc = l\<rparr>"
    by (rule Date_steady [OF st eq g])
  have wall: "wall_sec (Date ymd hour minute sec 0 l) = ymd * 86400 + c"
    unfolding date by (rule wall_sec_steady [OF st g])
  show "YearMonthDay (Date ymd hour minute sec 0 l) = ymd"
    by (rule YearMonthDay_wall [OF wall c(2,3)])
  show "Clock (Date ymd hour minute sec 0 l) = (c div 3600, c mod 3600 div 60, c mod 60)"
    by (rule Clock_wall [OF wall c(2,3)])
  show "Nanosecond (Date ymd hour minute sec 0 l) = 0"
    unfolding date by (simp add: Nanosecond_def)
  show "Location (Date ymd hour minute sec 0 l) = l"
    unfolding date by (simp add: Location_def)
qed

lemma weekday_after_Friday:
  "weekday_of d = Friday \<Longrightarrow> weekday_of (d + 1) = Saturday \<and> weekday_of (d + 3) = Monday"
proof -
  assume "weekday_of d = Friday"
  then have "(d + 4) mod 7 = 5"
    by (simp add: weekday_of_def Let_def split: if_splits)
  then have "(d + 1 + 4) mod 7 = 6" and "(d + 3 + 4) mod 7 = 1"
    by presburger+
  then show ?thesis
    by (simp add: weekday_of_def)
qed

lemma nextWorkDay_rollover:
  assumes six: "unix_ns now = (d * 86400 + 64800 - off) * Second"
    and ref: "steady (Location now) off (d * 86400 + 64800) (d * 86400 + 64800)"
    and nxt: "steady (Location now) off' ((d + 1) * 86400 + 36000) ((d + 1) * 86400 + 64800)"
    and D: "D = (if weekday_of (d + 1) = Saturday then d + 3
                 else if weekday_of (d + 1) = Sunday then d + 2 else d + 1)"
    and tgt: "steady (Location now) off'' (D * 86400 + 36000) (D * 86400 + 64800)"
  shows "nextWorkDay now =
           \<lparr>r_start = Date D 10 0 0 0 (Location now), r_end = Date D 18 0 0 0 (Location now)\<rparr>"
proof -
  define l where "l = Location now"
  note ref = ref [folded l_def] and nxt = nxt [folded l_def] and tgt = tgt [folded l_def]
  have now: "now = \<lparr>unix_ns = (d * 86400 + 64800 - off) * Second, loc = l\<rparr>"
    using six by (simp add: l_def Location_def)
  have wall: "wall_sec now = d * 86400 + 64800"
    unfolding now by (rule wall_sec_steady [OF ref]) simp_all
  have ymd: "YearMonthDay now = d"
    by (rule YearMonthDay_wall [OF wall]) simp_all
  have clock: "Clock now = (18, 0, 0)"
    using Clock_wall [OF wall] by simp
  have ns: "Nanosecond now = 0"
    using six by (simp add: Nanosecond_def)
  have six_eq: "Date d 18 0 0 0 l = now"
    unfolding now by (rule Date_steady [OF ref]) simp_all
  have tomorrow: "AddDate now 1 = Date (d + 1) 18 0 0 0 l"
    by (simp add: AddDate_def clock ymd ns l_def)
  have ymd1: "YearMonthDay (Date (d + 1) 18 0 0 0 l) = d + 1"
    by (rule Date_reading(2) [OF nxt, where c = 64800]) simp_all
  have loc1: "Location (Date (d + 1) 18 0 0 0 l) = l"
    by (rule Date_reading(5) [OF nxt, where c = 64800]) simp_all
  note ten = Date_reading [OF nxt, where c = 36000 and ymd = "d + 1" and hour = 10
      and minute = 0 and sec = 0, simplified]
  have wd: "Weekday (Date (d + 1) 10 0 0 0 l) = weekday_of (d + 1)"
    by (simp add: Weekday_def ten(2))
  have add: "AddDate (Date (d + 1) 10 0 0 0 l) k = Date (d + 1 + k) 10 0 0 0 l" for k
    by (simp add: AddDate_def ten(2-5))
  let ?n2 = "if weekday_of (d + 1) = Saturday then AddDate (Date (d + 1) 10 0 0 0 l) 2
             else if weekday_of (d + 1) = Sunday then AddDate (Date (d + 1) 10 0 0 0 l) 1
             else Date (d + 1) 10 0 0 0 l"
  have add2: "AddDate (Date (d + 1) 10 0 0 0 l) 2 = Date (d + 3) 10 0 0 0 l"
    and add1: "AddDate (Date (d + 1) 10 0 0 0 l) 1 = Date (d + 2) 10 0 0 0 l"
    unfolding add by (simp_all add: add.assoc)
  have n2: "?n2 = Date D 10 0 0 0 l"
    unfolding D add2 add1 by (simp only: if_distrib [of "\<lambda>x. Date x 10 0 0 0 l"])
  note tgt10 = Date_reading [OF tgt, where c = 36000 and ymd = D and hour = 10
      and minute = 0 and sec = 0, simplified]
  have "nextWorkDay now =
          \<lparr>r_start = ?n2, r_end = Date (YearMonthDay ?n2) 18 0 0 0 (Location ?n2)\<rparr>"
    by (simp add: nextWorkDay_def Let_def l_def [symmetric] ymd six_eq tomorrow ymd1 loc1 wd
        time_cmp)
  then have "nextWorkDay now = \<lparr>r_start = Date D 10 0 0 0 l, r_end = Date D 18 0 0 0 l\<rparr>"
    by (simp only: n2 tgt10(2) tgt10(5))
  then show ?thesis
    by (simp only: l_def)
qed


lemma lookup_tx_offset: "fst (lookup_tx txs off st x) \<in> set (off # map snd txs)"
proof (induction txs arbitrary: off st)
  case Nil
  then show ?case by simp
next
  case (Cons tr txs)
  obtain w off' where tr: "tr = (w, off')" by (cases tr)
  from Cons.IH [of off' w] show ?case
    by (auto simp add: tr)
qed

lemma offset_at_mem: "offset_at l x \<in> set (offsets l)"
  using lookup_tx_offset [of "tx l" "first_offset l" alpha x]
  by (simp add: offset_at_def lookup_def offsets_def)

lemma Location_Date: "Location (Date ymd hour minute sec nsec l) = l"
  by (simp add: Date_def Let_def Location_def split: prod.splits)

lemma Location_AddDate: "Location (AddDate t k) = Location t"
  by (simp add: AddDate_def Location_Date split: prod.splits)

lemma Date_instant:
  "\<exists>p \<in> set (offsets l).
     Date ymd hour minute sec 0 l
       = \<lparr>unix_ns = (ymd * 86400 + hour * 3600 + minute * 60 + sec - p) * Second, loc = l\<rparr>"
proof -
  define g where "g = ymd * 86400 + hour * 3600 + minute * 60 + sec"
  obtain off st e where look: "lookup l g = (off, st, e)"
    by (cases "lookup l g") auto
  then have off: "off = offset_at l g"
    by (simp add: offset_at_def)
  define p where "p = (if off \<noteq> 0 \<and> (g - off < st \<or> g - off \<ge> e) then offset_at l (g - off) else off)"
  have "p \<in> set (offsets l)"
    by (simp add: p_def off offset_at_mem)
  moreover have "Date ymd hour minute sec 0 l = \<lparr>unix_ns = (g - p) * Second, loc = l\<rparr>"
    using look unfolding Date_def g_def [symmetric] by (simp add: Let_def p_def)
  ultimately show ?thesis
    unfolding g_def by blast
qed

lemma wall_sec_instant: "wall_sec \<lparr>unix_ns = u * Second, loc = l\<rparr> = u + offset_at l u"
  by (simp add: wall_sec_def Let_def Location_def)

lemma Date_near:
  assumes "offsets_within l b"
  shows "\<exists>p \<in> set (offsets l). \<exists>dl. \<bar>dl\<bar> \<le> b
     \<and> Date ymd hour minute sec 0 l
         = \<lparr>unix_ns = (ymd * 86400 + hour * 3600 + minute * 60 + sec - p) * Second, loc = l\<rparr>
     \<and> wall_sec (Date ymd hour minute sec 0 l)
         = ymd * 86400 + hour * 3600 + minute * 60 + sec + dl"
proof -
  define g where "g = ymd * 86400 + hour * 3600 + minute * 60 + sec"
  from Date_instant [of l ymd hour minute sec] obtain p
    where p: "p \<in> set (offsets l)"
      and date: "Date ymd hour minute sec 0 l = \<lparr>unix_ns = (g - p) * Second, loc = l\<rparr>"
    unfolding g_def by blast
  define q where "q = offset_at l (g - p)"
  have "q \<in> set (offsets l)"
    by (simp add: q_def offset_at_mem)
  with p assms have "\<bar>q - p\<bar> \<le> b"
    by (simp add: offsets_within_def)
  moreover have "wall_sec (Date ymd hour minute sec 0 l) = g + (q - p)"
    unfolding date wall_sec_instant q_def by simp
  ultimately show ?thesis
    using p date unfolding g_def by blast
qed

lemma Clock_sum:
  assumes "Clock t = (hour, minute, sec)"
  shows "hour * 3600 + minute * 60 + sec = wall_sec t mod 86400"
proof -
  define c where "c = wall_sec t mod 86400"
  have "c mod 60 = c mod 3600 mod 60"
    by (simp add: mod_mod_cancel)
  then have "c div 3600 * 3600 + c mod 3600 div 60 * 60 + c mod 60 = c"
    by (metis div_mult_mod_eq add.assoc)
  with assms show ?thesis
    by (auto simp add: Clock_def Let_def c_def)
qed


lemma range_ok_nextWorkDay:
  assumes within: "offsets_within (Location now) 14400"
  shows "range_ok (nextWorkDay now)"
proof -
  define l where "l = Location now"
  note within = within [folded l_def]
  define D0 where "D0 =
    (if Time_After now (Date (YearMonthDay now) 18 0 0 0 l)
        \<or> Time_Equal now (Date (YearMonthDay now) 18 0 0 0 l)
     then YearMonthDay (AddDate now 1) else YearMonthDay now)"
  define n1 where "n1 = Date D0 10 0 0 0 l"
  define n2 where "n2 =
    (if Weekday n1 = Saturday then AddDate n1 2
     else if Weekday n1 = Sunday then AddDate n1 1 else n1)"
  have nwd: "nextWorkDay now = \<lparr>r_start = n2, r_end = Date (YearMonthDay n2) 18 0 0 0 (Location n2)\<rparr>"
    by (simp add: nextWorkDay_def Let_def n2_def n1_def D0_def l_def Location_AddDate)
  from Date_near [OF within, of D0 10 0 0] obtain p1 d1
    where p1: "p1 \<in> set (offsets l)" and d1: "\<bar>d1\<bar> \<le> 14400"
      and n1_eq: "n1 = \<lparr>unix_ns = (D0 * 86400 + 36000 - p1) * Second, loc = l\<rparr>"
      and n1_wall: "wall_sec n1 = D0 * 86400 + (36000 + d1)"
    unfolding n1_def by auto
  have n1_ymd: "YearMonthDay n1 = D0"
    using d1 by (intro YearMonthDay_wall [OF n1_wall]) linarith+
  have n1_loc: "Location n1 = l"
    by (simp add: n1_def Location_Date)
  have n1_ns: "Nanosecond n1 = 0"
    by (simp add: n1_eq Nanosecond_def)
  have n1_mod: "wall_sec n1 mod 86400 = 36000 + d1"
    unfolding n1_wall using d1 by simp
  have added: "\<exists>p \<in> set (offsets l). \<exists>c. 21600 \<le> c \<and> c \<le> 50400
      \<and> AddDate n1 k = \<lparr>unix_ns = ((D0 + k) * 86400 + c - p) * Second, loc = l\<rparr>
      \<and> YearMonthDay (AddDate n1 k) = D0 + k" for k
  proof -
    obtain hour minute sec where clock: "Clock n1 = (hour, minute, sec)"
      by (cases "Clock n1") auto
    from Clock_sum [OF clock] have sum: "hour * 3600 + minute * 60 + sec = 36000 + d1"
      by (simp add: n1_mod)
    have add: "AddDate n1 k = Date (D0 + k) hour minute sec 0 l"
      by (simp add: AddDate_def clock n1_ymd n1_ns n1_loc)
    from Date_near [OF within, of "D0 + k" hour minute sec] obtain p2 d2
      where p2: "p2 \<in> set (offsets l)" and d2: "\<bar>d2\<bar> \<le> 14400"
        and eq: "AddDate n1 k
                 = \<lparr>unix_ns = ((D0 + k) * 86400 + hour * 3600 + minute * 60 + sec - p2) * Second,
                     loc = l\<rparr>"
        and wall: "wall_sec (AddDate n1 k)
                   = (D0 + k) * 86400 + hour * 3600 + minute * 60 + sec + d2"
      unfolding add by auto
    have wall': "wall_sec (AddDate n1 k) = (D0 + k) * 86400 + (36000 + d1 + d2)"
      using wall sum by simp
    have "YearMonthDay (AddDate n1 k) = D0 + k"
      using d1 d2 by (intro YearMonthDay_wall [OF wall']) linarith+
    moreover have "AddDate n1 k = \<lparr>unix_ns = ((D0 + k) * 86400 + (36000 + d1) - p2) * Second, loc = l\<rparr>"
      using eq sum by (simp add: algebra_simps)
    moreover have "21600 \<le> 36000 + d1" "36000 + d1 \<le> 50400"
      using d1 by linarith+
    ultimately show ?thesis
      using p2 by blast
  qed
  have "\<exists>D. \<exists>p \<in> set (offsets l). \<exists>c. 21600 \<le> c \<and> c \<le> 50400
      \<and> n2 = \<lparr>unix_ns = (D * 86400 + c - p) * Second, loc = l\<rparr> \<and> YearMonthDay n2 = D"
  proof (cases "Weekday n1 = Saturday \<or> Weekday n1 = Sunday")
    case True
    then obtain k where "n2 = AddDate n1 k"
      by (auto simp add: n2_def)
    with added [of k] show ?thesis by blast
  next
    case False
    then have "n2 = n1" by (simp add: n2_def)
    with n1_eq n1_ymd p1 show ?thesis
      by (intro exI [of _ D0] bexI [of _ p1] exI [of _ 36000]) simp_all
  qed
  then obtain D p c where p: "p \<in> set (offsets l)" and c: "21600 \<le> c" "c \<le> 50400"
    and n2_eq: "n2 = \<lparr>unix_ns = (D * 86400 + c - p) * Second, loc = l\<rparr>"
    and n2_ymd: "YearMonthDay n2 = D"
    by blast
  have n2_loc: "Location n2 = l"
    by (simp add: n2_eq Location_def)
  from Date_instant [of l D 18 0 0] obtain p3 where p3: "p3 \<in> set (offsets l)"
    and end_eq: "Date D 18 0 0 0 l = \<lparr>unix_ns = (D * 86400 + 64800 - p3) * Second, loc = l\<rparr>"
    by auto
  from within p p3 have "\<bar>p3 - p\<bar> \<le> 14400"
    by (simp add: offsets_within_def)
  with c have "D * 86400 + c - p \<le> D * 86400 + 64800 - p3"
    by linarith
  then have "(D * 86400 + c - p) * Second \<le> (D * 86400 + 64800 - p3) * Second"
    by (rule mult_right_mono) simp
  moreover have "nextWorkDay now = \<lparr>r_start = n2, r_end = Date D 18 0 0 0 l\<rparr>"
    by (simp only: nwd n2_ymd n2_loc)
  ultimately show ?thesis
    by (simp add: end_eq n2_eq range_ok_def time_cmp)
qed

text \<open>
  C6. A reference that shows exactly 18:00 on day \<open>d\<close> is after hours: the work day is looked
  for from day \<open>d + 1\<close> on, and the week-end rule then applies to that day (a Saturday moves
  on by two days, a Sunday by one), which gives the day \<open>D\<close>. The range starts at the instant
  that shows 10:00 on day \<open>D\<close> and ends at the instant that shows 18:00 on day \<open>D\<close>. For a
  reference on a Friday, \<open>D\<close> is three days later, a Monday. The location may change its
  offset in between: it is steady at the reference and during the hours from 10:00 to 18:00
  of day \<open>d + 1\<close> and of day \<open>D\<close>.
\<close>

theorem nextWorkDay_at_six:
  assumes six: "unix_ns now = (d * 86400 + 64800 - off) * Second"
    and ref: "steady (Location now) off (d * 86400 + 64800) (d * 86400 + 64800)"
    and nxt: "steady (Location now) off' ((d + 1) * 86400 + 36000) ((d + 1) * 86400 + 64800)"
    and D: "D = (if weekday_of (d + 1) = Saturday then d + 3
                 else if weekday_of (d + 1) = Sunday then d + 2 else d + 1)"
    and tgt: "steady (Location now) off'' (D * 86400 + 36000) (D * 86400 + 64800)"
  shows "unix_ns (Start (nextWorkDay now)) = D * Day + 10 * Hour - off'' * Second
         \<and> unix_ns (End (nextWorkDay now)) = D * Day + 18 * Hour - off'' * Second
         \<and> YearMonthDay (Start (nextWorkDay now)) = D
         \<and> Clock (Start (nextWorkDay now)) = (10, 0, 0)
         \<and> YearMonthDay (End (nextWorkDay now)) = D
         \<and> Clock (End (nextWorkDay now)) = (18, 0, 0)
         \<and> (weekday_of d = Friday \<longrightarrow>
               D = d + 3 \<and> Weekday (Start (nextWorkDay now)) = Monday)"
proof -
  define l where "l = Location now"
  have nwd: "nextWorkDay now = \<lparr>r_start = Date D 10 0 0 0 l, r_end = Date D 18 0 0 0 l\<rparr>"
    unfolding l_def by (rule nextWorkDay_rollover [OF six ref nxt D tgt])
  note ten = Date_reading [OF tgt [folded l_def], where c = 36000 and ymd = D and hour = 10
      and minute = 0 and sec = 0, simplified]
  note six = Date_reading [OF tgt [folded l_def], where c = 64800 and ymd = D and hour = 18
      and minute = 0 and sec = 0, simplified]
  have start: "unix_ns (Start (nextWorkDay now)) = D * Day + 10 * Hour - off'' * Second"
    by (simp add: nwd ten(1))
  have "end": "unix_ns (End (nextWorkDay now)) = D * Day + 18 * Hour - off'' * Second"
    by (simp add: nwd six(1))
  have ymd: "YearMonthDay (Start (nextWorkDay now)) = D" "YearMonthDay (End (nextWorkDay now)) = D"
    by (simp_all add: nwd ten(2) six(2))
  have clock: "Clock (Start (nextWorkDay now)) = (10, 0, 0)"
    "Clock (End (nextWorkDay now)) = (18, 0, 0)"
    by (simp_all add: nwd ten(3) six(3))
  have friday: "D = d + 3 \<and> Weekday (Start (nextWorkDay now)) = Monday" if "weekday_of d = Friday"
    using weekday_after_Friday [OF that] ymd(1) by (simp add: Weekday_def D)
  from start "end" ymd clock friday show ?thesis
    by blast
qed

theorem nextWorkDay_at_six_witness:
  "unix_ns \<lparr>unix_ns = 1489190400000000000, loc = Chicago\<rparr> = (17235 * 86400 + 64800 - (- 21600)) * Second
   \<and> steady Chicago (- 21600) (17235 * 86400 + 64800) (17235 * 86400 + 64800)
   \<and> steady Chicago (- 21600) (17236 * 86400 + 36000) (17236 * 86400 + 64800)
   \<and> weekday_of 17235 = Friday
   \<and> weekday_of 17236 = Saturday
   \<and> steady Chicago (- 18000) (17238 * 86400 + 36000) (17238 * 86400 + 64800)
   \<and> unix_ns (Start (nextWorkDay \<lparr>unix_ns = 1489190400000000000, loc = Chicago\<rparr>))
       = 1489417200000000000
   \<and> unix_ns (End (nextWorkDay \<lparr>unix_ns = 1489190400000000000, loc = Chicago\<rparr>))
       = 1489446000000000000
   \<and> Clock (Start (nextWorkDay \<lparr>unix_ns = 1489190400000000000, loc = Chicago\<rparr>)) = (10, 0, 0)
   \<and> Clock (End (nextWorkDay \<lparr>unix_ns = 1489190400000000000, loc = Chicago\<rparr>)) = (18, 0, 0)
   \<and> Weekday (Start (nextWorkDay \<lparr>unix_ns = 1489190400000000000, loc = Chicago\<rparr>)) = Monday"
proof -
  let ?now = "\<lparr>unix_ns = 1489190400000000000, loc = Chicago\<rparr>"
  have six: "unix_ns ?now = (17235 * 86400 + 64800 - (- 21600)) * Second"
    by simp
  have ref: "steady (Location ?now) (- 21600) (17235 * 86400 + 64800) (17235 * 86400 + 64800)"
    and nxt: "steady (Location ?now) (- 21600) ((17235 + 1) * 86400 + 36000)
                ((17235 + 1) * 86400 + 64800)"
    and tgt: "steady (Location ?now) (- 18000) (17238 * 86400 + 36000) (17238 * 86400 + 64800)"
    by (simp_all add: steady_def lookup_def Chicago_def Location_def)
  have days: "weekday_of 17235 = Friday" "weekday_of 17236 = Saturday"
    by (simp_all add: weekday_of_def)
  have D: "(17238::int) = (if weekday_of (17235 + 1) = Saturday then 17235 + 3
                 else if weekday_of (17235 + 1) = Sunday then 17235 + 2 else 17235 + 1)"
    by (simp add: days)
  have steady: "steady Chicago (- 21600) (17235 * 86400 + 64800) (17235 * 86400 + 64800)"
    "steady Chicago (- 21600) (17236 * 86400 + 36000) (17236 * 86400 + 64800)"
    "steady Chicago (- 18000) (17238 * 86400 + 36000) (17238 * 86400 + 64800)"
    by (simp_all add: steady_def lookup_def Chicago_def)
  from nextWorkDay_at_six [OF six ref nxt D tgt] days(1)
  have "unix_ns (Start (nextWorkDay ?now)) = 1489417200000000000
    \<and> unix_ns (End (nextWorkDay ?now)) = 1489446000000000000
    \<and> Clock (Start (nextWorkDay ?now)) = (10, 0, 0)
    \<and> Clock (End (nextWorkDay ?now)) = (18, 0, 0)
    \<and> Weekday (Start (nextWorkDay ?now)) = Monday"
    by simp
  with steady days show ?thesis
    by simp
qed

text \<open>
  C8. For a location whose offsets are within four hours of one another, the range that
  \<open>nextWorkDay\<close> returns is well formed. For a well-formed range \<open>r\<close>, every range that \<open>split\<close>
  returns and the range that \<open>After\<close> returns are well formed.
\<close>

theorem range_ok_preserved:
  "(offsets_within (Location now) 14400 \<longrightarrow> range_ok (nextWorkDay now))
   \<and> (range_ok r \<longrightarrow> (\<forall>p \<in> set (split r s e). range_ok p) \<and> range_ok (After r t))"
proof (intro conjI impI)
  assume "offsets_within (Location now) 14400"
  then show "range_ok (nextWorkDay now)"
    by (rule range_ok_nextWorkDay)
next
  assume "range_ok r"
  then show "\<forall>p \<in> set (split r s e). range_ok p"
    by (auto simp add: split_def range_ok_def time_cmp Let_def)
next
  assume "range_ok r"
  then show "range_ok (After r t)"
    by (auto simp add: After_def range_ok_def time_cmp)
qed

theorem range_ok_preserved_witness:
  "offsets_within (Location \<lparr>unix_ns = 1489255200000000000, loc = Chicago\<rparr>) 14400
   \<and> nextWorkDay \<lparr>unix_ns = 1489255200000000000, loc = Chicago\<rparr>
       = \<lparr>r_start = \<lparr>unix_ns = 1489417200000000000, loc = Chicago\<rparr>,
          r_end = \<lparr>unix_ns = 1489446000000000000, loc = Chicago\<rparr>\<rparr>
   \<and> range_ok (nextWorkDay \<lparr>unix_ns = 1489255200000000000, loc = Chicago\<rparr>)
   \<and> range_ok \<lparr>r_start = instant 10, r_end = instant 20\<rparr>
   \<and> split \<lparr>r_start = instant 10, r_end = instant 20\<rparr> (instant 12) (instant 15)
       = [\<lparr>r_start = instant 10, r_end = instant 12\<rparr>,
          \<lparr>r_start = instant 15, r_end = instant 20\<rparr>]
   \<and> range_ok \<lparr>r_start = instant 10, r_end = instant 12\<rparr>
   \<and> range_ok \<lparr>r_start = instant 15, r_end = instant 20\<rparr>
   \<and> After \<lparr>r_start = instant 10, r_end = instant 20\<rparr> (instant 25)
       = \<lparr>r_start = instant 20, r_end = instant 20\<rparr>
   \<and> range_ok \<lparr>r_start = instant 20, r_end = instant 20\<rparr>"
proof -
  let ?now = "\<lparr>unix_ns = 1489255200000000000, loc = Chicago\<rparr>"
  let ?r = "\<lparr>r_start = instant 10, r_end = instant 20\<rparr>"
  have within: "offsets_within (Location ?now) 14400"
    by (simp add: offsets_within_def offsets_def Chicago_def Location_def)
  have monday: "nextWorkDay ?now
       = \<lparr>r_start = \<lparr>unix_ns = 1489417200000000000, loc = Chicago\<rparr>,
          r_end = \<lparr>unix_ns = 1489446000000000000, loc = Chicago\<rparr>\<rparr>"
    by code_simp
  have ok: "range_ok ?r"
    by (simp add: range_ok_def instant_def time_cmp)
  have pieces: "split ?r (instant 12) (instant 15)
       = [\<lparr>r_start = instant 10, r_end = instant 12\<rparr>,
          \<lparr>r_start = instant 15, r_end = instant 20\<rparr>]"
    by (simp add: instant_def split_def time_cmp)
  have clipped: "After ?r (instant 25) = \<lparr>r_start = instant 20, r_end = instant 20\<rparr>"
    by (simp add: instant_def After_def time_cmp)
  from range_ok_preserved [of ?now ?r "instant 12" "instant 15" "instant 25"] within ok monday
  show ?thesis
    unfolding pieces clipped by simp
qed

text \<open>
  The hypothesis of C8 on the location is needed: in a location that moves its clock
  forward by twelve hours at midnight, 10:00 of that day does not exist, and the range
  that \<open>nextWorkDay\<close> returns for the evening before ends before it starts.
\<close>

lemma nextWorkDay_half_day_jump:
  "nextWorkDay \<lparr>unix_ns = - 3600 * Second, loc = \<lparr>first_offset = 0, tx = [(0, 43200)]\<rparr>\<rparr>
     = \<lparr>r_start = \<lparr>unix_ns = 36000 * Second, loc = \<lparr>first_offset = 0, tx = [(0, 43200)]\<rparr>\<rparr>,
        r_end = \<lparr>unix_ns = 21600 * Second, loc = \<lparr>first_offset = 0, tx = [(0, 43200)]\<rparr>\<rparr>\<rparr>"
  by code_simp

section \<open>Zero-length ranges\<close>

text \<open>
  C10. Every range that \<open>split\<close> returns is either \<open>r\<close> itself, returned by one of the two
  guards, or a range whose end is strictly after its start. \<open>After\<close>, on the contrary, returns
  a zero-length range for an instant after the end of \<open>r\<close>.
\<close>

theorem split_no_new_zero_length:
  "(\<forall>p \<in> set (split r s e).
      (p = r \<and> \<not> overlaps r s e) \<or> unix_ns (Start p) < unix_ns (End p))
   \<and> (Time_After t (End r) \<longrightarrow> unix_ns (Start (After r t)) = unix_ns (End (After r t)))"
  by (auto simp add: split_def After_def overlaps_def time_cmp Let_def)

theorem split_no_new_zero_length_witness:
  "split \<lparr>r_start = instant 10, r_end = instant 20\<rparr> (instant 12) (instant 15)
     = [\<lparr>r_start = instant 10, r_end = instant 12\<rparr>,
        \<lparr>r_start = instant 15, r_end = instant 20\<rparr>]
   \<and> unix_ns (Start \<lparr>r_start = instant 10, r_end = instant 12\<rparr>)
       < unix_ns (End \<lparr>r_start = instant 10, r_end = instant 12\<rparr>)
   \<and> unix_ns (Start \<lparr>r_start = instant 15, r_end = instant 20\<rparr>)
       < unix_ns (End \<lparr>r_start = instant 15, r_end = instant 20\<rparr>)
   \<and> Time_After (instant 25) (End \<lparr>r_start = instant 10, r_end = instant 20\<rparr>)
   \<and> After \<lparr>r_start = instant 10, r_end = instant 20\<rparr> (instant 25)
       = \<lparr>r_start = instant 20, r_end = instant 20\<rparr>"
proof -
  let ?r = "\<lparr>r_start = instant 10, r_end = instant 20\<rparr>"
  have pieces: "split ?r (instant 12) (instant 15)
       = [\<lparr>r_start = instant 10, r_end = instant 12\<rparr>,
          \<lparr>r_start = instant 15, r_end = instant 20\<rparr>]"
    by (simp add: instant_def split_def time_cmp)
  have clipped: "After ?r (instant 25) = \<lparr>r_start = instant 20, r_end = instant 20\<rparr>"
    by (simp add: instant_def After_def time_cmp)
  from split_no_new_zero_length [of ?r "instant 12" "instant 15" "instant 25"] show ?thesis
    unfolding pieces clipped by (simp add: instant_def overlaps_def time_cmp)
qed

section \<open>Properties of the pruning\<close>

lemma fl_mono: "float64_rounding fl \<Longrightarrow> x \<le> y \<Longrightarrow> fl x \<le> fl y"
  by (simp add: float64_rounding_def)

lemma fl_int: "float64_rounding fl \<Longrightarrow> \<bar>k\<bar> \<le> 2 ^ 53 \<Longrightarrow> fl (real_of_int k) = real_of_int k"
  by (simp add: float64_rounding_def)

lemma fl_upper:
  assumes fl: "float64_rounding fl" and x: "1 / 2 \<le> x" "x \<le> 32"
  shows "fl x \<le> x + 32 / 2 ^ 53"
proof -
  have "(2::real) ^ 1 \<le> 2 ^ 1022" and "(2::real) ^ 5 \<le> 2 ^ 1023"
    by (rule power_increasing; simp)+
  then have big: "(2::real) \<le> 2 ^ 1022" "(32::real) \<le> 2 ^ 1023"
    by simp_all
  have "1 \<le> x * 2" using x by simp
  also have "\<dots> \<le> x * 2 ^ 1022"
    using x big by (intro mult_left_mono) simp_all
  finally have lo: "1 \<le> \<bar>x\<bar> * 2 ^ 1022" using x by simp
  have hi: "\<bar>x\<bar> \<le> 2 ^ 1023" using x big by simp
  from fl lo hi have "\<bar>fl x - x\<bar> * 2 ^ 53 \<le> \<bar>x\<bar>"
    by (simp add: float64_rounding_def)
  moreover have "(fl x - x) * 2 ^ 53 \<le> \<bar>fl x - x\<bar> * 2 ^ 53"
    by (intro mult_right_mono) simp_all
  ultimately have "(fl x - x) * 2 ^ 53 \<le> 32"
    using x by linarith
  then have "fl x - x \<le> 32 / 2 ^ 53"
    by (simp add: pos_le_divide_eq)
  then show ?thesis by simp
qed

lemma Minutes_long:
  assumes fl: "float64_rounding fl" and d: "30 * Minute \<le> d" "d \<le> maxDuration"
  shows "30 \<le> Minutes fl d"
proof -
  define m where "m = d sdiv Minute"
  define n where "n = d smod Minute"
  have m_eq: "m = d div Minute" and n_eq: "n = d mod Minute"
    using d by (simp_all add: m_def n_def signed_divide_int_def signed_modulo_int_def)
  have m: "30 \<le> m" "m \<le> 2 ^ 53" and n: "0 \<le> n" "n \<le> 2 ^ 53"
    using d unfolding m_eq n_eq by simp_all
  have flm: "fl (real_of_int m) = real_of_int m" and fln: "fl (real_of_int n) = real_of_int n"
    using fl m n by (simp_all add: fl_int)
  have fl0: "fl 0 = 0" and fl30: "fl 30 = 30"
    using fl_int [OF fl, of 0] fl_int [OF fl, of 30] by simp_all
  have "0 \<le> fl (real_of_int n / 60000000000)"
    using fl_mono [OF fl, of 0 "real_of_int n / 60000000000"] n by (simp add: fl0)
  then have "30 \<le> real_of_int m + fl (real_of_int n / 60000000000)"
    using m by simp
  then have "30 \<le> fl (real_of_int m + fl (real_of_int n / 60000000000))"
    using fl_mono [OF fl, of 30] by (simp add: fl30)
  then show ?thesis
    unfolding Minutes_def Let_def m_def [symmetric] n_def [symmetric] flm fln .
qed

lemma Minutes_short:
  assumes fl: "float64_rounding fl" and d: "0 \<le> d" "d < 30 * Minute"
  shows "Minutes fl d < 30"
proof -
  define m where "m = d sdiv Minute"
  define n where "n = d smod Minute"
  have m_eq: "m = d div Minute" and n_eq: "n = d mod Minute"
    using d by (simp_all add: m_def n_def signed_divide_int_def signed_modulo_int_def sgn_if)
  have m: "0 \<le> m" "m \<le> 29" and n: "0 \<le> n" "n \<le> 59999999999"
    using d unfolding m_eq n_eq by simp_all
  have flm: "fl (real_of_int m) = real_of_int m" and fln: "fl (real_of_int n) = real_of_int n"
    using fl m n by (simp_all add: fl_int)
  let ?q = "real_of_int n / 60000000000"
  let ?qmax = "59999999999 / 60000000000 :: real"
  have "real_of_int n \<le> 59999999999" using n by simp
  then have "?q \<le> ?qmax" by simp
  then have "fl ?q \<le> fl ?qmax" by (rule fl_mono [OF fl])
  also have "\<dots> \<le> ?qmax + 32 / 2 ^ 53"
    by (rule fl_upper [OF fl]) simp_all
  finally have q: "fl ?q \<le> ?qmax + 32 / 2 ^ 53" .
  let ?smax = "29 + (?qmax + 32 / 2 ^ 53) :: real"
  have "real_of_int m \<le> 29" using m by simp
  with q have "real_of_int m + fl ?q \<le> ?smax" by simp
  then have "fl (real_of_int m + fl ?q) \<le> fl ?smax" by (rule fl_mono [OF fl])
  also have "\<dots> \<le> ?smax + 32 / 2 ^ 53"
    by (rule fl_upper [OF fl]) simp_all
  also have "\<dots> < 30" by simp
  finally show ?thesis
    unfolding Minutes_def Let_def m_def [symmetric] n_def [symmetric] flm fln .
qed

lemma Minutes_negative:
  assumes fl: "float64_rounding fl" and d: "minDuration \<le> d" "d < 0"
  shows "Minutes fl d < 30"
proof -
  define m where "m = d sdiv Minute"
  define n where "n = d smod Minute"
  have m_eq: "m = - (- d div Minute)" and n_eq: "n = - (- d mod Minute)"
    using d by (simp_all add: m_def n_def signed_divide_int_def signed_modulo_int_def sgn_if)
  have "0 \<le> - d div Minute" "- d div Minute \<le> 2 ^ 53"
    using d by simp_all
  then have m: "m \<le> 0" "\<bar>m\<bar> \<le> 2 ^ 53"
    unfolding m_eq by simp_all
  have "0 \<le> - d mod Minute" "- d mod Minute \<le> 2 ^ 53"
    using d by simp_all
  then have n: "n \<le> 0" "\<bar>n\<bar> \<le> 2 ^ 53"
    unfolding n_eq by simp_all
  have flm: "fl (real_of_int m) = real_of_int m" and fln: "fl (real_of_int n) = real_of_int n"
    using fl m n by (simp_all add: fl_int)
  have fl0: "fl 0 = 0"
    using fl_int [OF fl, of 0] by simp
  let ?q = "real_of_int n / 60000000000"
  have "?q \<le> 0" using n by (simp add: divide_le_0_iff)
  then have "fl ?q \<le> 0"
    using fl_mono [OF fl, of ?q 0] by (simp add: fl0)
  then have "real_of_int m + fl ?q \<le> 0" using m by simp
  then have "fl (real_of_int m + fl ?q) \<le> 0"
    using fl_mono [OF fl, of "real_of_int m + fl ?q" 0] by (simp add: fl0)
  then have "fl (real_of_int m + fl ?q) < 30" by simp
  then show ?thesis
    unfolding Minutes_def Let_def m_def [symmetric] n_def [symmetric] flm fln .
qed

lemma Minutes_Duration:
  assumes fl: "float64_rounding fl"
  shows "30 \<le> Minutes fl (Duration r) \<longleftrightarrow> 30 * Minute \<le> unix_ns (End r) - unix_ns (Start r)"
proof -
  let ?D = "unix_ns (End r) - unix_ns (Start r)"
  have range: "minDuration \<le> Duration r" "Duration r \<le> maxDuration"
    by (simp_all add: Duration_def Time_Sub_def Let_def)
  have same: "30 * Minute \<le> Duration r \<longleftrightarrow> 30 * Minute \<le> ?D"
    by (simp add: Duration_def Time_Sub_def Let_def)
  show ?thesis
  proof (cases "30 * Minute \<le> Duration r")
    case True
    with Minutes_long [OF fl True range(2)] same show ?thesis by simp
  next
    case False
    then have "Minutes fl (Duration r) < 30"
      using Minutes_short [OF fl, of "Duration r"] Minutes_negative [OF fl range(1)]
      by (cases "0 \<le> Duration r") simp_all
    with False same show ?thesis by simp
  qed
qed

lemma foldl_filter:
  "foldl (\<lambda>acc x. if P x then acc @ [x] else acc) acc xs = acc @ filter P xs"
  by (induction xs arbitrary: acc) simp_all

text \<open>
  C7. The pruning keeps exactly the ranges that last 30 minutes or more, in their order: a
  range of exactly 30 minutes is kept, a range of 29 minutes is dropped.
\<close>

theorem prune_keeps_long:
  assumes "float64_rounding fl"
  shows "prune fl rs = filter (\<lambda>r. 30 * Minute \<le> unix_ns (End r) - unix_ns (Start r)) rs
         \<and> (unix_ns (End r) - unix_ns (Start r) = 30 * Minute \<longrightarrow> prune fl [r] = [r])
         \<and> (unix_ns (End r) - unix_ns (Start r) = 29 * Minute \<longrightarrow> prune fl [r] = [])"
proof -
  have kept: "prune fl xs = filter (\<lambda>r. 30 * Minute \<le> unix_ns (End r) - unix_ns (Start r)) xs"
    for xs
    by (simp add: prune_def foldl_filter Minutes_Duration [OF assms])
  show ?thesis
    by (simp add: kept)
qed

theorem prune_keeps_long_witness:
  "float64_rounding (\<lambda>x. x)
   \<and> prune (\<lambda>x. x)
       [\<lparr>r_start = instant 0, r_end = instant (30 * Minute)\<rparr>,
        \<lparr>r_start = instant 0, r_end = instant (29 * Minute)\<rparr>,
        \<lparr>r_start = instant (10 * Minute), r_end = instant (55 * Minute)\<rparr>]
     = [\<lparr>r_start = instant 0, r_end = instant (30 * Minute)\<rparr>,
        \<lparr>r_start = instant (10 * Minute), r_end = instant (55 * Minute)\<rparr>]
   \<and> prune (\<lambda>x. x) [\<lparr>r_start = instant 0, r_end = instant (30 * Minute)\<rparr>]
     = [\<lparr>r_start = instant 0, r_end = instant (30 * Minute)\<rparr>]
   \<and> prune (\<lambda>x. x) [\<lparr>r_start = instant 0, r_end = instant (29 * Minute)\<rparr>] = []"
proof -
  have fl: "float64_rounding (\<lambda>x. x)"
    by (simp add: float64_rounding_def)
  from prune_keeps_long [OF fl, of
      "[\<lparr>r_start = instant 0, r_end = instant (30 * Minute)\<rparr>,
        \<lparr>r_start = instant 0, r_end = instant (29 * Minute)\<rparr>,
        \<lparr>r_start = instant (10 * Minute), r_end = instant (55 * Minute)\<rparr>]"
      "\<lparr>r_start = instant 0, r_end = instant (30 * Minute)\<rparr>"]
    prune_keeps_long [OF fl, of "[]" "\<lparr>r_start = instant 0, r_end = instant (29 * Minute)\<rparr>"]
    fl
  show ?thesis
    by (simp add: instant_def)
qed


end
